theory Spec2Isabelle
  imports Complex_Main
begin

section \<open>Walk-forward analysis notebook: data model\<close>

text \<open>
  The notebook \<^verbatim>\<open>42_VectorbtWalkforwardAnalysis.ipynb\<close> defines five functions
  (\<^verbatim>\<open>simulate_holding\<close>, \<^verbatim>\<open>simulate_all_params\<close>, \<^verbatim>\<open>get_best_index\<close>,
  \<^verbatim>\<open>get_best_params\<close>, \<^verbatim>\<open>simulate_best_params\<close>) and a sequence of cells that
  call them. Everything else it does happens inside the libraries it calls: the rolling
  splitter and the moving-average combinations of vectorbt, the grouped arg-max of pandas
  and the t-test of scipy. The notebook's functions are embedded from its cells; each
  library call is embedded by a definition that says which call it stands for and follows
  the library routine step by step, with integer arguments only (the notebook passes no
  fractional window or set length).

  Exceptions are values: a call returns \<open>Inl e\<close> where the Python raises.
\<close>

datatype error = ValueError | KeyError | ZeroDivisionError

text \<open>
  A score is a float. Only its order and whether it is NaN matter to the notebook, so a
  score is either \<open>NaN\<close> or \<open>Num x\<close> with \<open>x\<close> in a linear order.
\<close>

datatype 'a score = NaN | Num 'a

fun is_nan :: "'a score \<Rightarrow> bool" where
  "is_nan NaN = True"
| "is_nan (Num x) = False"

text \<open>Running a list of fallible steps: the first exception ends the run.\<close>

fun collect :: "(error + 'a) list \<Rightarrow> error + 'a list" where
  "collect [] = Inr []"
| "collect (x # xs) =
     (case x of
        Inl e \<Rightarrow> Inl e
      | Inr v \<Rightarrow> (case collect xs of Inl e \<Rightarrow> Inl e | Inr vs \<Rightarrow> Inr (v # vs)))"

section \<open>The rolling splitter (\<^verbatim>\<open>vbt.rolling_split\<close>)\<close>

text \<open>
  \<^verbatim>\<open>sr.vbt.rolling_split(n=.., window_len=.., set_lens=.., left_to_right=..)\<close> runs
  vectorbt's \<^verbatim>\<open>RollingSplitter.split\<close> on the positions \<open>0..len-1\<close> of the series and
  cuts each window with \<^verbatim>\<open>split_ranges_into_sets\<close>:
  \<^verbatim>\<open>
    if window_len is None and n is None: raise ValueError
    if window_len is None: window_len = len(index) // n
    start_idxs = np.arange(len(index) - window_len + 1)
    end_idxs = np.arange(window_len - 1, len(index))
    window_lens = end_idxs - start_idxs + 1
    min_len_mask = window_lens >= min_len            # min_len = 1
    if not np.any(min_len_mask): raise ValueError
    ...
    if n is not None:
        if n > len(start_idxs): raise ValueError
        idxs = np.round(np.linspace(0, len(start_idxs) - 1, n)).astype(int)
        start_idxs = start_idxs[idxs]; end_idxs = end_idxs[idxs]
    return split_ranges_into_sets(start_idxs, end_idxs, **kwargs)
  \<close>
\<close>

text \<open>\<^verbatim>\<open>np.round\<close> of the quotient \<open>a / b\<close> (\<open>b > 0\<close>): halves go to the even neighbour.\<close>

definition round_half_even :: "nat \<Rightarrow> nat \<Rightarrow> nat" where
  "round_half_even a b =
     (let q = a div b; r = a mod b
      in if 2 * r < b then q
         else if b < 2 * r then q + 1
         else if even q then q else q + 1)"

text \<open>
  \<^verbatim>\<open>np.round(np.linspace(0, stop, n)).astype(int)\<close>: \<open>n\<close> evenly spaced points from
  \<open>0\<close> to \<open>stop\<close>, point \<open>i\<close> being \<open>i * stop / (n - 1)\<close>, computed exactly. The
  floating-point product of numpy can miss an exact half by one unit in the last place and
  then round to the other neighbour (point 7 of 15 points from 0 to 29 is 14.5 exactly
  and 15 in numpy); the first and the last point are exact, and nothing proved below
  depends on which neighbour an inner point takes.
\<close>

definition linspace_round :: "nat \<Rightarrow> nat \<Rightarrow> nat list" where
  "linspace_round stop n =
     (if n = 0 then []
      else if n = 1 then [0]
      else map (\<lambda>i. round_half_even (i * stop) (n - 1)) [0..<n])"

definition resolve_window_len :: "nat \<Rightarrow> nat option \<Rightarrow> nat option \<Rightarrow> error + nat" where
  "resolve_window_len len n window_len =
     (case window_len of
        Some w \<Rightarrow> Inr w
      | None \<Rightarrow>
          (case n of
             None \<Rightarrow> Inl ValueError
           | Some k \<Rightarrow> if k = 0 then Inl ZeroDivisionError else Inr (len div k)))"

text \<open>
  The windows \<open>(start, end)\<close>, both ends included, that pass the \<^verbatim>\<open>min_len\<close> mask.
  A series shorter than the window gives two empty \<^verbatim>\<open>arange\<close>s; a window of length
  zero gives windows that the mask removes.
\<close>

definition window_ranges :: "nat \<Rightarrow> nat \<Rightarrow> (nat \<times> nat) list" where
  "window_ranges len w =
     (if w = 0 \<or> len < w then []
      else map (\<lambda>s. (s, s + w - 1)) [0..<len - w + 1])"

definition select_ranges :: "nat option \<Rightarrow> 'b list \<Rightarrow> error + 'b list" where
  "select_ranges n rs =
     (case n of
        None \<Rightarrow> Inr rs
      | Some k \<Rightarrow>
          if length rs < k then Inl ValueError
          else Inr (map (\<lambda>i. rs ! i) (linspace_round (length rs - 1) k)))"

text \<open>
  \<^verbatim>\<open>split_ranges_into_sets\<close>, for one window:
  \<^verbatim>\<open>
    range_len = end_idx - start_idx + 1
    if len(set_lens) == 0: yield (np.arange(start_idx, end_idx + 1),)
    else:
        for j, set_len in enumerate(set_lens):
            if set_len == 0: raise ValueError
            new_set_lens.append(set_len)
        if sum(new_set_lens) < range_len:
            if left_to_right: new_set_lens = new_set_lens + [range_len - sum(new_set_lens)]
            else: new_set_lens = [range_len - sum(new_set_lens)] + new_set_lens
        else: raise ValueError
        idx_offset = 0
        for set_len in new_set_lens:
            new_idx_offset = idx_offset + set_len
            set_ranges.append(np.arange(start_idx + idx_offset, start_idx + new_idx_offset))
            idx_offset = new_idx_offset
        yield tuple(set_ranges)
  \<close>
\<close>

definition resolve_set_lens :: "nat \<Rightarrow> nat list \<Rightarrow> bool \<Rightarrow> error + nat list" where
  "resolve_set_lens range_len set_lens left_to_right =
     (if 0 \<in> set set_lens then Inl ValueError
      else if sum_list set_lens < range_len then
        Inr (if left_to_right then set_lens @ [range_len - sum_list set_lens]
             else (range_len - sum_list set_lens) # set_lens)
      else Inl ValueError)"

fun set_ranges :: "nat \<Rightarrow> nat list \<Rightarrow> nat list list" where
  "set_ranges off [] = []"
| "set_ranges off (l # ls) = [off..<off + l] # set_ranges (off + l) ls"

definition split_range_into_sets :: "nat \<times> nat \<Rightarrow> nat list \<Rightarrow> bool \<Rightarrow> error + nat list list" where
  "split_range_into_sets r set_lens left_to_right =
     (case r of (s, e) \<Rightarrow>
        if set_lens = [] then Inr [[s..<e + 1]]
        else (case resolve_set_lens (e - s + 1) set_lens left_to_right of
                Inl err \<Rightarrow> Inl err
              | Inr ls \<Rightarrow> Inr (set_ranges s ls)))"

text \<open>
  The whole call. The result lists the splits in window order (\<^verbatim>\<open>split_idx\<close> is the
  position in the list); each split lists its sets, each set the positions it takes from the
  series. The accessor raises when no split was generated.
\<close>

definition rolling_split ::
  "'a list \<Rightarrow> nat option \<Rightarrow> nat option \<Rightarrow> nat list \<Rightarrow> bool \<Rightarrow> error + nat list list list" where
  "rolling_split X n window_len set_lens left_to_right =
     (case resolve_window_len (length X) n window_len of
        Inl e \<Rightarrow> Inl e
      | Inr w \<Rightarrow>
          (let rs = window_ranges (length X) w
           in if rs = [] then Inl ValueError
              else (case select_ranges n rs of
                      Inl e \<Rightarrow> Inl e
                    | Inr sel \<Rightarrow>
                        (case collect (map (\<lambda>r. split_range_into_sets r set_lens left_to_right) sel) of
                           Inl e \<Rightarrow> Inl e
                         | Inr splits \<Rightarrow> if splits = [] then Inl ValueError else Inr splits))))"

text \<open>
  The data frame of set \<open>j\<close>: one column per split, holding the observations at the
  positions of that split's set \<open>j\<close> (\<^verbatim>\<open>self.obj.iloc[idxs]\<close>).
\<close>

definition take_rows :: "'a list \<Rightarrow> nat list \<Rightarrow> 'a list" where
  "take_rows X idxs = map (\<lambda>i. X ! i) idxs"

definition set_frame :: "'a list \<Rightarrow> nat list list list \<Rightarrow> nat \<Rightarrow> 'a list list" where
  "set_frame X splits j = map (\<lambda>sets. take_rows X (sets ! j)) splits"

text \<open>The demonstration series of the notebook: ten daily observations \<open>0, \<dots>, 9\<close>.\<close>

definition sr :: "int list" where
  "sr = map int [0..<10]"

section \<open>The parameter grid and the in-sample simulation\<close>

text \<open>
  \<^verbatim>\<open>vbt.MA.run_combs(price, windows, r=2, short_names=["fast", "slow"])\<close> pairs the
  windows with \<^verbatim>\<open>itertools.combinations(windows, 2)\<close>: every pair of two positions
  \<open>i < j\<close> of the list, the earlier position first, ordered by \<open>i\<close> and then by \<open>j\<close>.
\<close>

fun combinations2 :: "'a list \<Rightarrow> ('a \<times> 'a) list" where
  "combinations2 [] = []"
| "combinations2 (x # xs) = map (Pair x) xs @ combinations2 xs"


text \<open>
  A row label of the score table has the three levels \<^verbatim>\<open>fast_window\<close>,
  \<^verbatim>\<open>slow_window\<close> and \<^verbatim>\<open>split_idx\<close>. A table is the list of its rows, in row order.
\<close>

type_synonym key = "nat \<times> nat \<times> nat"

definition fast_window :: "key \<Rightarrow> nat" where
  "fast_window k = fst k"

definition slow_window :: "key \<Rightarrow> nat" where
  "slow_window k = fst (snd k)"

definition split_idx :: "key \<Rightarrow> nat" where
  "split_idx k = snd (snd k)"

text \<open>
  \<^verbatim>\<open>simulate_all_params(price, windows, **kwargs)\<close>. The price frame has one column per
  split. The moving averages, their crossings, the portfolio and its Sharpe ratio are
  computed column by column; \<open>sharpe col fast slow\<close> stands for that chain on one column
  with one pair of windows. The columns of the result are the parameter pairs in grid order,
  and under each pair the columns of the price frame. With fewer than two windows there is
  no pair, \<^verbatim>\<open>run_combs\<close> returns an empty tuple and the unpacking into
  \<^verbatim>\<open>fast_ma, slow_ma\<close> raises.
\<close>

definition simulate_all_params ::
  "('a list \<Rightarrow> nat \<Rightarrow> nat \<Rightarrow> 's score) \<Rightarrow> 'a list list \<Rightarrow> nat list \<Rightarrow> error + (key \<times> 's score) list" where
  "simulate_all_params sharpe price windows =
     (if combinations2 windows = [] then Inl ValueError
      else Inr (concat (map (\<lambda>(f, s).
                  map (\<lambda>(i, col). ((f, s, i), sharpe col f s)) (enumerate 0 price))
                (combinations2 windows))))"

section \<open>Best selection (\<^verbatim>\<open>get_best_index\<close>, \<^verbatim>\<open>get_best_params\<close>)\<close>

text \<open>
  \<^verbatim>\<open>performance.groupby('split_idx')\<close> groups the rows by their \<^verbatim>\<open>split_idx\<close>; the
  groups come in ascending order of the group key and each keeps its rows in row order.
\<close>

definition group_keys :: "(key \<times> 'v) list \<Rightarrow> nat list" where
  "group_keys performance = sorted_list_of_set (set (map (\<lambda>row. split_idx (fst row)) performance))"

definition group_rows :: "nat \<Rightarrow> (key \<times> 'v) list \<Rightarrow> (key \<times> 'v) list" where
  "group_rows g performance = filter (\<lambda>row. split_idx (fst row) = g) performance"

text \<open>
  \<^verbatim>\<open>idxmax\<close> and \<^verbatim>\<open>idxmin\<close> skip NaN and give the label of the first row that holds
  the extreme. \<open>arg_first better rows\<close> keeps the head of the rows unless a later row is
  strictly better. A group without any number has no such row: there \<^verbatim>\<open>idxmax\<close> raises
  \<^verbatim>\<open>ValueError\<close> (older versions of pandas return NaN for the group and the call raises
  later; the class of the exception depends on the version, that the call raises does not).
\<close>

fun arg_first :: "('s \<Rightarrow> 's \<Rightarrow> bool) \<Rightarrow> ('k \<times> 's score) list \<Rightarrow> ('k \<times> 's) option" where
  "arg_first better [] = None"
| "arg_first better ((k, NaN) # rows) = arg_first better rows"
| "arg_first better ((k, Num x) # rows) =
     (case arg_first better rows of
        None \<Rightarrow> Some (k, x)
      | Some (k', x') \<Rightarrow> if better x' x then Some (k', x') else Some (k, x))"

definition idxmax :: "('k \<times> 's::linorder score) list \<Rightarrow> error + 'k" where
  "idxmax rows =
     (case arg_first (\<lambda>x' x. x < x') rows of
        None \<Rightarrow> Inl ValueError
      | Some (k, x) \<Rightarrow> Inr k)"

definition idxmin :: "('k \<times> 's::linorder score) list \<Rightarrow> error + 'k" where
  "idxmin rows =
     (case arg_first (\<lambda>x' x. x' < x) rows of
        None \<Rightarrow> Inl ValueError
      | Some (k, x) \<Rightarrow> Inr k)"

definition groupby_split_idx ::
  "((key \<times> 'v) list \<Rightarrow> error + 'r) \<Rightarrow> (key \<times> 'v) list \<Rightarrow> error + 'r list" where
  "groupby_split_idx f performance =
     collect (map (\<lambda>g. f (group_rows g performance)) (group_keys performance))"

text \<open>
  \<^verbatim>\<open>performance[labels]\<close>: the rows that carry each label, label by label. A label
  that no row carries raises \<^verbatim>\<open>KeyError\<close>.
\<close>

definition getitem :: "('k \<times> 'v) list \<Rightarrow> 'k list \<Rightarrow> error + ('k \<times> 'v) list" where
  "getitem performance labels =
     (if list_ex (\<lambda>k. k \<notin> set (map fst performance)) labels
      then Inl KeyError
      else Inr (concat (map (\<lambda>k. filter (\<lambda>row. fst row = k) performance) labels)))"

text \<open>
  \<^verbatim>\<open>
  def get_best_index(performance, higher_better=True):
      if higher_better:
          return performance[performance.groupby('split_idx').idxmax()].index
      return performance[performance.groupby('split_idx').idxmin()].index
  \<close>
\<close>

definition get_best_index :: "(key \<times> 's::linorder score) list \<Rightarrow> bool \<Rightarrow> error + key list" where
  "get_best_index performance higher_better =
     (if higher_better then
        (case groupby_split_idx idxmax performance of
           Inl e \<Rightarrow> Inl e
         | Inr labels \<Rightarrow>
             (case getitem performance labels of
                Inl e \<Rightarrow> Inl e
              | Inr rows \<Rightarrow> Inr (map fst rows)))
      else
        (case groupby_split_idx idxmin performance of
           Inl e \<Rightarrow> Inl e
         | Inr labels \<Rightarrow>
             (case getitem performance labels of
                Inl e \<Rightarrow> Inl e
              | Inr rows \<Rightarrow> Inr (map fst rows))))"

text \<open>
  The label that \<^verbatim>\<open>get_best_index\<close> takes from one group: the result of
  \<^verbatim>\<open>idxmax\<close> or of \<^verbatim>\<open>idxmin\<close>, as \<^verbatim>\<open>higher_better\<close> says.
\<close>

definition idx_best :: "bool \<Rightarrow> ('k \<times> 's::linorder score) list \<Rightarrow> error + 'k" where
  "idx_best higher_better rows = (if higher_better then idxmax rows else idxmin rows)"

text \<open>
  \<^verbatim>\<open>get_best_params(best_index, level_name)\<close> is
  \<^verbatim>\<open>best_index.get_level_values(level_name).to_numpy()\<close>; a name that is no level of the
  index raises \<^verbatim>\<open>KeyError\<close>.
\<close>

definition get_best_params :: "key list \<Rightarrow> string \<Rightarrow> error + nat list" where
  "get_best_params best_index level_name =
     (if level_name = ''fast_window'' then Inr (map fast_window best_index)
      else if level_name = ''slow_window'' then Inr (map slow_window best_index)
      else if level_name = ''split_idx'' then Inr (map split_idx best_index)
      else Inl KeyError)"

section \<open>Out-of-sample simulation (\<^verbatim>\<open>simulate_best_params\<close>)\<close>

text \<open>
  \<^verbatim>\<open>vbt.MA.run(price, window=best_fast_windows, per_column=True)\<close> applies window \<open>i\<close>
  to column \<open>i\<close> of the price frame. The windows are first brought to the number of
  columns as vectorbt's \<^verbatim>\<open>broadcast_params\<close> does: a list of that length is taken as it
  is, a single window is repeated for every column, any other length raises.
\<close>

definition broadcast_params :: "nat list \<Rightarrow> nat \<Rightarrow> error + nat list" where
  "broadcast_params params to_n =
     (if length params = to_n then Inr params
      else if length params = 1 then Inr (concat (replicate to_n params))
      else Inl ValueError)"

text \<open>
  The crossings, the portfolio and the Sharpe ratio are again column by column, so the
  function runs the chain \<open>sharpe\<close> once per column: \<open>best_params_calls\<close> lists the
  arguments of these runs, in column order.
\<close>

definition best_params_calls :: "'a list list \<Rightarrow> nat list \<Rightarrow> nat list \<Rightarrow> ('a list \<times> nat \<times> nat) list" where
  "best_params_calls price fast_windows slow_windows =
     zip price (zip fast_windows slow_windows)"

definition simulate_best_params ::
  "('a list \<Rightarrow> nat \<Rightarrow> nat \<Rightarrow> 's score) \<Rightarrow> 'a list list \<Rightarrow> nat list \<Rightarrow> nat list \<Rightarrow> error + 's score list" where
  "simulate_best_params sharpe price best_fast_windows best_slow_windows =
     (case broadcast_params best_fast_windows (length price) of
        Inl e \<Rightarrow> Inl e
      | Inr fast \<Rightarrow>
          (case broadcast_params best_slow_windows (length price) of
             Inl e \<Rightarrow> Inl e
           | Inr slow \<Rightarrow>
               Inr (map (\<lambda>(col, f, s). sharpe col f s) (best_params_calls price fast slow))))"

section \<open>The significance comparison\<close>

text \<open>
  \<^verbatim>\<open>
  t, p = stats.ttest_ind(a=out_sample_test, b=in_sample_best, alternative="greater")
  p > 0.05
  \<close>
  The test itself is scipy's and is a parameter \<open>ttest_ind\<close> here: it takes the two
  samples and the alternative and returns the statistic and the p-value, or raises. The
  literal \<^verbatim>\<open>0.05\<close> denotes the double nearest to one twentieth; a comparison with NaN is
  false.
\<close>

datatype alternative = TwoSided | Less | Greater

definition threshold :: real where
  "threshold = 3602879701896397 / 2 ^ 56"

fun exceeds :: "real score \<Rightarrow> real \<Rightarrow> bool" where
  "exceeds NaN c = False"
| "exceeds (Num x) c = (c < x)"

record comparison =
  statistic :: "real score"
  pvalue :: "real score"
  p_above_threshold :: bool

definition significance_test ::
  "('s score list \<Rightarrow> 's score list \<Rightarrow> alternative \<Rightarrow> error + real score \<times> real score) \<Rightarrow>
   's score list \<Rightarrow> 's score list \<Rightarrow> error + comparison" where
  "significance_test ttest_ind out_sample_test in_sample_best =
     (case ttest_ind out_sample_test in_sample_best Greater of
        Inl e \<Rightarrow> Inl e
      | Inr (t, p) \<Rightarrow>
          Inr \<lparr>statistic = t, pvalue = p, p_above_threshold = exceeds p threshold\<rparr>)"

text \<open>A test that returns the same statistic and p-value whatever the samples are.\<close>

definition constant_test ::
  "real score \<Rightarrow> real score \<Rightarrow> 's score list \<Rightarrow> 's score list \<Rightarrow> alternative \<Rightarrow> error + real score \<times> real score" where
  "constant_test t p a b alt = Inr (t, p)"

section \<open>The cells of the walk-forward run\<close>

text \<open>
  The cells from \<^verbatim>\<open>price.vbt.rolling_split\<close> to \<^verbatim>\<open>out_test_sharpe.values\<close>, in the
  order of the notebook, with the split count, the window length, the out-of-sample length
  and the windows as arguments (the notebook has 30, 730, 180 and \<open>10..49\<close>).
\<close>

record ('a, 's) run =
  in_price :: "'a list list"
  out_price :: "'a list list"
  in_sharpe :: "(key \<times> 's score) list"
  in_best_index :: "key list"
  in_best_fast_windows :: "nat list"
  in_best_slow_windows :: "nat list"
  out_test_sharpe :: "'s score list"
  in_sample_best :: "'s score list"
  out_sample_test :: "'s score list"

definition walk_forward ::
  "('a list \<Rightarrow> nat \<Rightarrow> nat \<Rightarrow> 's::linorder score) \<Rightarrow> 'a list \<Rightarrow> nat \<Rightarrow> nat \<Rightarrow> nat \<Rightarrow> nat list \<Rightarrow>
   error + ('a, 's) run" where
  "walk_forward sharpe price n window_len set_len windows =
     (case rolling_split price (Some n) (Some window_len) [set_len] False of
        Inl e \<Rightarrow> Inl e
      | Inr splits \<Rightarrow>
     (case simulate_all_params sharpe (set_frame price splits 0) windows of
        Inl e \<Rightarrow> Inl e
      | Inr sharpes \<Rightarrow>
     (case get_best_index sharpes True of
        Inl e \<Rightarrow> Inl e
      | Inr best \<Rightarrow>
     (case get_best_params best ''fast_window'' of
        Inl e \<Rightarrow> Inl e
      | Inr fast \<Rightarrow>
     (case get_best_params best ''slow_window'' of
        Inl e \<Rightarrow> Inl e
      | Inr slow \<Rightarrow>
     (case simulate_best_params sharpe (set_frame price splits 1) fast slow of
        Inl e \<Rightarrow> Inl e
      | Inr out_test \<Rightarrow>
     (case getitem sharpes best of
        Inl e \<Rightarrow> Inl e
      | Inr best_rows \<Rightarrow>
          Inr \<lparr>in_price = set_frame price splits 0,
               out_price = set_frame price splits 1,
               in_sharpe = sharpes,
               in_best_index = best,
               in_best_fast_windows = fast,
               in_best_slow_windows = slow,
               out_test_sharpe = out_test,
               in_sample_best = map snd best_rows,
               out_sample_test = out_test\<rparr>)))))))"

text \<open>
  A stand-in for the simulation chain, to run the cells on the demonstration series: the
  score of a column is the sum of its observations plus the difference of the two windows.
  With the windows 10, 20, 30, two windows of five observations and one out-of-sample
  observation per window, the cells compute \<open>toy_run\<close>.
\<close>

definition toy_sharpe :: "int list \<Rightarrow> nat \<Rightarrow> nat \<Rightarrow> int score" where
  "toy_sharpe col fast slow = Num (int fast - int slow + sum_list col)"

definition toy_table :: "(key \<times> int score) list" where
  "toy_table =
     [((10, 20, 0), Num (- 4)), ((10, 20, 1), Num 16),
      ((10, 30, 0), Num (- 14)), ((10, 30, 1), Num 6),
      ((20, 30, 0), Num (- 4)), ((20, 30, 1), Num 16)]"

definition toy_run :: "(int, int) run" where
  "toy_run =
     \<lparr>in_price = [[0, 1, 2, 3], [5, 6, 7, 8]],
      out_price = [[4], [9]],
      in_sharpe = toy_table,
      in_best_index = [(10, 20, 0), (10, 20, 1)],
      in_best_fast_windows = [10, 10],
      in_best_slow_windows = [20, 20],
      out_test_sharpe = [Num (- 6), Num (- 1)],
      in_sample_best = [Num (- 4), Num 16],
      out_sample_test = [Num (- 6), Num (- 1)]\<rparr>"

section \<open>Properties of the rolling splitter\<close>

lemma collect_Inr:
  "collect xs = Inr ys \<Longrightarrow> y \<in> set ys \<Longrightarrow> Inr y \<in> set xs"
  by (induction xs arbitrary: ys) (auto split: sum.splits)

lemma round_half_even_le:
  assumes "0 < b" and "a \<le> m * b"
  shows "round_half_even a b \<le> m"
proof -
  have "a div b \<le> (m * b) div b"
    using assms(2) by (rule div_le_mono)
  with assms(1) have q: "a div b \<le> m" by simp
  show ?thesis
  proof (cases "a div b = m")
    case True
    have "b * (a div b) + a mod b = a" by simp
    with True have "m * b + a mod b = a" by (simp add: mult.commute)
    with assms(2) have "a mod b = 0" by linarith
    with True assms show ?thesis by (simp add: round_half_even_def Let_def)
  next
    case False
    with q have "a div b < m" by simp
    then show ?thesis by (simp add: round_half_even_def Let_def)
  qed
qed

lemma linspace_round_le: "i \<in> set (linspace_round stop n) \<Longrightarrow> i \<le> stop"
  by (auto simp: linspace_round_def mult.commute intro!: round_half_even_le split: if_splits)

lemma select_ranges_subset:
  assumes "select_ranges n rs = Inr sel" and "rs \<noteq> []"
  shows "set sel \<subseteq> set rs"
proof (cases n)
  case None
  with assms show ?thesis by (simp add: select_ranges_def)
next
  case (Some k)
  have "rs ! i \<in> set rs" if "i \<in> set (linspace_round (length rs - 1) k)" for i
  proof -
    from that have "i \<le> length rs - 1" by (rule linspace_round_le)
    with \<open>rs \<noteq> []\<close> have "i < length rs"
      by (cases rs) auto
    then show ?thesis by simp
  qed
  with assms Some show ?thesis
    by (auto simp: select_ranges_def split: if_splits)
qed

lemma window_ranges_shape:
  "r \<in> set (window_ranges len w) \<Longrightarrow> \<exists>s. r = (s, s + w - 1) \<and> 0 < w \<and> s + w \<le> len"
  by (auto simp: window_ranges_def split: if_splits)

lemma rolling_split_windows:
  assumes "rolling_split X n (Some w) set_lens ltr = Inr splits" and "sets \<in> set splits"
  shows "\<exists>s. 0 < w \<and> s + w \<le> length X \<and>
             split_range_into_sets (s, s + w - 1) set_lens ltr = Inr sets"
proof -
  from assms(1) obtain sel where
    ne: "window_ranges (length X) w \<noteq> []" and
    sel: "select_ranges n (window_ranges (length X) w) = Inr sel" and
    col: "collect (map (\<lambda>r. split_range_into_sets r set_lens ltr) sel) = Inr splits"
    by (auto simp: rolling_split_def resolve_window_len_def Let_def split: sum.splits if_splits)
  from collect_Inr [OF col assms(2)] obtain r where
    r: "r \<in> set sel" and rs: "split_range_into_sets r set_lens ltr = Inr sets"
    by auto
  from select_ranges_subset [OF sel ne] r have "r \<in> set (window_ranges (length X) w)"
    by auto
  from window_ranges_shape [OF this] rs show ?thesis by auto
qed

lemma rolling_split_length_only:
  "length X = length Y \<Longrightarrow> rolling_split X n w ls ltr = rolling_split Y n w ls ltr"
  by (simp add: rolling_split_def split: sum.splits)

lemma rolling_split_sr_two:
  "rolling_split sr (Some 2) (Some 5) [1] False = Inr [[[0, 1, 2, 3], [4]], [[5, 6, 7, 8], [9]]]"
  by code_simp

text \<open>
  The demonstration cell of the notebook passes no split count: every window position is
  kept, and the ten observations give six windows that start one observation apart.
\<close>

lemma rolling_split_demo_call:
  "rolling_split sr None (Some 5) [1] False =
     Inr [[[0, 1, 2, 3], [4]], [[1, 2, 3, 4], [5]], [[2, 3, 4, 5], [6]],
          [[3, 4, 5, 6], [7]], [[4, 5, 6, 7], [8]], [[5, 6, 7, 8], [9]]]"
  by code_simp

text \<open>
  Claim C3. A series of ten observations, split with \<^verbatim>\<open>window_len=5\<close>, one
  out-of-sample set of length 1 (\<^verbatim>\<open>set_lens=(1,)\<close>, \<^verbatim>\<open>left_to_right=False\<close>) and the
  two windows placed without overlap (\<^verbatim>\<open>n=2\<close>), gives exactly two splits: split 0 takes
  the positions \<open>0, \<dots>, 4\<close> with the out-of-sample position 4, split 1 takes the positions
  \<open>5, \<dots>, 9\<close> with the out-of-sample position 9.
\<close>

theorem rolling_split_ten_points:
  assumes "length X = 10"
  shows "rolling_split X (Some 2) (Some 5) [1] False =
           Inr [[[0, 1, 2, 3], [4]], [[5, 6, 7, 8], [9]]]"
proof -
  have "length X = length sr" using assms by (simp add: sr_def)
  then have "rolling_split X (Some 2) (Some 5) [1] False =
             rolling_split sr (Some 2) (Some 5) [1] False"
    by (rule rolling_split_length_only)
  then show ?thesis by (simp only: rolling_split_sr_two)
qed

theorem rolling_split_ten_points_witness:
  "length sr = 10 \<and>
   rolling_split sr (Some 2) (Some 5) [1] False = Inr [[[0, 1, 2, 3], [4]], [[5, 6, 7, 8], [9]]]"
  using rolling_split_ten_points [of sr] by (simp add: sr_def)

lemma rolling_split_two_sets:
  assumes "rolling_split X n (Some window_len) [k] ltr = Inr splits" and "sets \<in> set splits"
  shows "\<exists>ins oos. sets = [ins, oos] \<and> ins \<noteq> [] \<and> oos \<noteq> [] \<and>
           set ins \<inter> set oos = {} \<and>
           (\<forall>i\<in>set ins. \<forall>j\<in>set oos. i < j) \<and>
           length ins + length oos = window_len \<and>
           (\<forall>i\<in>set ins \<union> set oos. i < length X)"
proof -
  from rolling_split_windows [OF assms] obtain s where
    w: "0 < window_len" and fit: "s + window_len \<le> length X" and
    cut: "split_range_into_sets (s, s + window_len - 1) [k] ltr = Inr sets"
    by blast
  from w have len: "s + window_len - 1 - s + 1 = window_len" by simp
  from cut have k: "0 < k" "k < window_len" and
    sets: "sets = (if ltr then [[s..<s + k], [s + k..<s + window_len]]
                   else [[s..<s + (window_len - k)], [s + (window_len - k)..<s + window_len]])"
    unfolding split_range_into_sets_def resolve_set_lens_def len
    by (auto split: if_splits)
  show ?thesis
  proof (cases ltr)
    case True
    with sets k fit show ?thesis by auto
  next
    case False
    with sets k fit show ?thesis by auto
  qed
qed

text \<open>
  Claim C4. Whenever the splitter, called with a window length and one out-of-sample set
  length, returns splits, every split consists of an in-sample and an out-of-sample set of
  positions that are disjoint, every out-of-sample position comes after every in-sample
  position (the series is in time order, so later position means later timestamp), and the
  two sets together have \<^verbatim>\<open>window_len\<close> positions, all of them positions of the series.
\<close>

theorem split_ranges_disjoint_ordered:
  assumes "rolling_split X n (Some window_len) [k] ltr = Inr splits" and "sets \<in> set splits"
  shows "\<exists>ins oos. sets = [ins, oos] \<and> ins \<noteq> [] \<and> oos \<noteq> [] \<and>
           set ins \<inter> set oos = {} \<and>
           (\<forall>i\<in>set ins. \<forall>j\<in>set oos. i < j) \<and>
           length ins + length oos = window_len \<and>
           (\<forall>i\<in>set ins \<union> set oos. i < length X)"
  using assms by (rule rolling_split_two_sets)

theorem split_ranges_disjoint_ordered_witness:
  "rolling_split sr (Some 2) (Some 5) [1] False = Inr [[[0, 1, 2, 3], [4]], [[5, 6, 7, 8], [9]]] \<and>
   [[5, 6, 7, 8], [9]] \<in> set [[[0, 1, 2, 3], [4]], [[5, 6, 7, 8], [9 :: nat]]] \<and>
   (\<exists>ins oos. [[5, 6, 7, 8], [9]] = [ins, oos] \<and> ins \<noteq> [] \<and> oos \<noteq> [] \<and>
           set ins \<inter> set oos = {} \<and>
           (\<forall>i\<in>set ins. \<forall>j\<in>set oos. i < j) \<and>
           length ins + length oos = (5::nat) \<and>
           (\<forall>i\<in>set ins \<union> set oos. i < length sr))"
proof -
  have a: "rolling_split sr (Some 2) (Some 5) [1] False =
             Inr [[[0, 1, 2, 3], [4]], [[5, 6, 7, 8], [9]]]"
    by code_simp
  have b: "[[5, 6, 7, 8], [9]] \<in> set [[[0, 1, 2, 3], [4]], [[5, 6, 7, 8], [9 :: nat]]]"
    by simp
  from split_ranges_disjoint_ordered [OF a b] a b show ?thesis by blast
qed

text \<open>
  Claim C5. A series with fewer observations than the requested window length is refused:
  the call raises (the library's \<^verbatim>\<open>ValueError\<close>, "There are no ranges that meet
  window_len>=1") and returns no splits, so no shortened window is produced.
\<close>

theorem rolling_split_short_series:
  "length X < window_len \<Longrightarrow> rolling_split X n (Some window_len) set_lens ltr = Inl ValueError"
  by (simp add: rolling_split_def resolve_window_len_def window_ranges_def)

theorem rolling_split_short_series_witness:
  "length sr < 11 \<and> rolling_split sr (Some 2) (Some 11) [1] False = Inl ValueError"
  using rolling_split_short_series [of sr 11 "Some 2" "[1]" False] by (simp add: sr_def)

section \<open>Properties of the parameter grid\<close>









section \<open>Properties of best selection\<close>

lemma arg_first_None: "arg_first better rows = None \<longleftrightarrow> (\<forall>row\<in>set rows. is_nan (snd row))"
  by (induction better rows rule: arg_first.induct) (auto split: option.splits)

lemma arg_first_Some:
  assumes asym: "\<And>a b. better a b \<Longrightarrow> \<not> better b a"
    and negtrans: "\<And>a b c. \<not> better a b \<Longrightarrow> \<not> better b c \<Longrightarrow> \<not> better a c"
  shows "arg_first better rows = Some (k, x) \<Longrightarrow>
         \<exists>pre post. rows = pre @ (k, Num x) # post \<and>
           (\<forall>row\<in>set pre. \<forall>y. snd row = Num y \<longrightarrow> better x y) \<and>
           (\<forall>row\<in>set post. \<forall>y. snd row = Num y \<longrightarrow> \<not> better y x)"
proof (induction rows arbitrary: k x)
  case Nil
  then show ?case by simp
next
  case (Cons row rows)
  obtain k0 v where row: "row = (k0, v)" by (cases row)
  show ?case
  proof (cases v)
    case NaN
    with Cons.prems row have "arg_first better rows = Some (k, x)" by simp
    from Cons.IH [OF this] obtain pre post where
      d: "rows = pre @ (k, Num x) # post"
      and p: "\<forall>row\<in>set pre. \<forall>y. snd row = Num y \<longrightarrow> better x y"
      and q: "\<forall>row\<in>set post. \<forall>y. snd row = Num y \<longrightarrow> \<not> better y x"
      by blast
    from d have "row # rows = (row # pre) @ (k, Num x) # post" by simp
    moreover from p row NaN have "\<forall>r\<in>set (row # pre). \<forall>y. snd r = Num y \<longrightarrow> better x y"
      by simp
    ultimately show ?thesis using q by blast
  next
    case (Num x0)
    show ?thesis
    proof (cases "arg_first better rows")
      case None
      with Cons.prems row Num have kx: "k = k0" "x = x0" by simp_all
      from None have "\<forall>r\<in>set rows. is_nan (snd r)" by (simp add: arg_first_None)
      then have "\<forall>r\<in>set rows. \<forall>y. snd r = Num y \<longrightarrow> \<not> better y x" by fastforce
      moreover have "row # rows = [] @ (k, Num x) # rows" using row Num kx by simp
      ultimately show ?thesis by (metis empty_iff list.set(1))
    next
      case (Some best)
      obtain k1 x1 where best: "best = (k1, x1)" by (cases best)
      from Cons.IH [of k1 x1] Some best obtain pre post where
        d: "rows = pre @ (k1, Num x1) # post"
        and p: "\<forall>row\<in>set pre. \<forall>y. snd row = Num y \<longrightarrow> better x1 y"
        and q: "\<forall>row\<in>set post. \<forall>y. snd row = Num y \<longrightarrow> \<not> better y x1"
        by blast
      show ?thesis
      proof (cases "better x1 x0")
        case True
        with Cons.prems row Num Some best have kx: "k = k1" "x = x1" by simp_all
        from d kx have "row # rows = (row # pre) @ (k, Num x) # post" by simp
        moreover from p row Num True kx
        have "\<forall>r\<in>set (row # pre). \<forall>y. snd r = Num y \<longrightarrow> better x y" by simp
        ultimately show ?thesis using q kx by blast
      next
        case False
        with Cons.prems row Num Some best have kx: "k = k0" "x = x0" by simp_all
        have "\<not> better y x1" if "r \<in> set rows" and "snd r = Num y" for r y
        proof -
          from that(1) d consider "r \<in> set pre" | "r = (k1, Num x1)" | "r \<in> set post" by auto
          then show ?thesis
          proof cases
            case 1
            with p that(2) have "better x1 y" by blast
            then show ?thesis by (rule asym)
          next
            case 2
            with that(2) have "y = x1" by simp
            then show ?thesis using asym by blast
          next
            case 3
            with q that(2) show ?thesis by blast
          qed
        qed
        with False have "\<forall>r\<in>set rows. \<forall>y. snd r = Num y \<longrightarrow> \<not> better y x"
          using negtrans kx by blast
        moreover have "row # rows = [] @ (k, Num x) # rows" using row Num kx by simp
        ultimately show ?thesis by (metis empty_iff list.set(1))
      qed
    qed
  qed
qed

lemma idxmax_Inl: "idxmax rows = Inl e \<longleftrightarrow> e = ValueError \<and> (\<forall>row\<in>set rows. is_nan (snd row))"
  using arg_first_None [of "\<lambda>x' x. x < x'" rows]
  by (auto simp: idxmax_def split: option.splits)

lemma idxmin_Inl: "idxmin rows = Inl e \<longleftrightarrow> e = ValueError \<and> (\<forall>row\<in>set rows. is_nan (snd row))"
  using arg_first_None [of "\<lambda>x' x. x' < x" rows]
  by (auto simp: idxmin_def split: option.splits)

lemma idxmax_Inr:
  assumes "idxmax rows = Inr k"
  shows "\<exists>pre x post. rows = pre @ (k, Num x) # post \<and>
           (\<forall>row\<in>set pre. \<forall>y. snd row = Num y \<longrightarrow> y < x) \<and>
           (\<forall>row\<in>set post. \<forall>y. snd row = Num y \<longrightarrow> y \<le> x)"
proof -
  from assms obtain x where "arg_first (\<lambda>x' x. x < x') rows = Some (k, x)"
    by (auto simp: idxmax_def split: option.splits)
  from arg_first_Some [of "\<lambda>x' x. x < x'", OF _ _ this] show ?thesis
    by (fastforce simp: not_less)
qed

lemma idxmin_Inr:
  assumes "idxmin rows = Inr k"
  shows "\<exists>pre x post. rows = pre @ (k, Num x) # post \<and>
           (\<forall>row\<in>set pre. \<forall>y. snd row = Num y \<longrightarrow> x < y) \<and>
           (\<forall>row\<in>set post. \<forall>y. snd row = Num y \<longrightarrow> x \<le> y)"
proof -
  from assms obtain x where "arg_first (\<lambda>x' x. x' < x) rows = Some (k, x)"
    by (auto simp: idxmin_def split: option.splits)
  from arg_first_Some [of "\<lambda>x' x. x' < x", OF _ _ this] show ?thesis
    by (fastforce simp: not_less)
qed

lemma idx_best_Inl:
  "idx_best hb rows = Inl e \<longleftrightarrow> e = ValueError \<and> (\<forall>row\<in>set rows. is_nan (snd row))"
  by (simp add: idx_best_def idxmax_Inl idxmin_Inl)

lemma idx_best_Inr:
  assumes "idx_best hb rows = Inr k"
  shows "\<exists>pre x post. rows = pre @ (k, Num x) # post \<and>
           (\<forall>row\<in>set pre. \<forall>y. snd row = Num y \<longrightarrow> (if hb then y < x else x < y)) \<and>
           (\<forall>row\<in>set post. \<forall>y. snd row = Num y \<longrightarrow> (if hb then y \<le> x else x \<le> y))"
proof (cases hb)
  case True
  with assms have "idxmax rows = Inr k" by (simp add: idx_best_def)
  from idxmax_Inr [OF this] True show ?thesis by simp
next
  case False
  with assms have "idxmin rows = Inr k" by (simp add: idx_best_def)
  from idxmin_Inr [OF this] False show ?thesis by simp
qed

lemma idx_best_member:
  assumes "idx_best hb rows = Inr k"
  shows "\<exists>x. (k, Num x) \<in> set rows"
proof -
  from idx_best_Inr [OF assms] obtain pre x post where "rows = pre @ (k, Num x) # post"
    by blast
  then have "(k, Num x) \<in> set rows" by simp
  then show ?thesis ..
qed

lemma idx_best_valid:
  assumes "\<exists>row\<in>set rows. \<not> is_nan (snd row)"
  shows "\<exists>k. idx_best hb rows = Inr k"
proof (cases "idx_best hb rows")
  case (Inl e)
  with idx_best_Inl [of hb rows e] have "\<forall>row\<in>set rows. is_nan (snd row)" by blast
  with assms show ?thesis by blast
next
  case (Inr k)
  then show ?thesis by blast
qed

lemma collect_map_Inr: "collect (map Inr ys) = Inr ys"
  by (induction ys) simp_all

lemma collect_Inr_eq: "collect xs = Inr ys \<Longrightarrow> xs = map Inr ys"
  by (induction xs arbitrary: ys) (auto split: sum.splits)

lemma collect_Inl:
  "Inl e \<in> set xs \<Longrightarrow> \<exists>e'. collect xs = Inl e'"
  by (induction xs) (auto split: sum.splits)

lemma get_best_index_unfold:
  "get_best_index p hb =
     (case groupby_split_idx (idx_best hb) p of
        Inl e \<Rightarrow> Inl e
      | Inr labels \<Rightarrow>
          (case getitem p labels of
             Inl e \<Rightarrow> Inl e
           | Inr rows \<Rightarrow> Inr (map fst rows)))"
  by (simp add: get_best_index_def groupby_split_idx_def idx_best_def)

lemma group_keys_set: "set (group_keys p) = (\<lambda>row. split_idx (fst row)) ` set p"
  by (simp add: group_keys_def)

lemma group_keys_ascending: "sorted_wrt (<) (group_keys p)"
  by (simp add: group_keys_def strict_sorted_iff)

lemma group_rows_member:
  "row \<in> set (group_rows g p) \<longleftrightarrow> row \<in> set p \<and> split_idx (fst row) = g"
  by (auto simp: group_rows_def)

lemma getitem_Inr:
  assumes "getitem p labels = Inr rows"
  shows "rows = concat (map (\<lambda>k. filter (\<lambda>row. fst row = k) p) labels)"
    and "\<forall>k\<in>set labels. k \<in> fst ` set p"
proof -
  from assms have no: "\<not> list_ex (\<lambda>k. k \<notin> set (map fst p)) labels"
    by (auto simp: getitem_def split: if_splits)
  with assms show "rows = concat (map (\<lambda>k. filter (\<lambda>row. fst row = k) p) labels)"
    by (simp add: getitem_def)
  from no show "\<forall>k\<in>set labels. k \<in> fst ` set p"
    by (auto simp: list_ex_iff)
qed

lemma getitem_subset:
  assumes "getitem p labels = Inr rows"
  shows "set rows \<subseteq> set p"
  unfolding getitem_Inr(1) [OF assms] by auto

lemma getitem_fst:
  assumes "getitem p labels = Inr rows" and "row \<in> set rows"
  shows "fst row \<in> set labels"
  using assms(2) unfolding getitem_Inr(1) [OF assms(1)] by auto

lemma getitem_total:
  assumes "\<forall>k\<in>set labels. k \<in> fst ` set p"
  shows "getitem p labels = Inr (concat (map (\<lambda>k. filter (\<lambda>row. fst row = k) p) labels))"
  using assms by (auto simp: getitem_def list_ex_iff)

text \<open>
  What a successful selection is made of: every split gave a label, the labels were looked
  up, and the index of the rows found is returned.
\<close>

lemma get_best_index_Inr:
  assumes "get_best_index p hb = Inr best"
  shows "\<exists>labels rows.
           map (\<lambda>g. idx_best hb (group_rows g p)) (group_keys p) = map Inr labels \<and>
           getitem p labels = Inr rows \<and> best = map fst rows"
proof -
  from assms obtain labels where l: "groupby_split_idx (idx_best hb) p = Inr labels"
    unfolding get_best_index_unfold
    by (cases "groupby_split_idx (idx_best hb) p") simp_all
  with assms obtain rows where r: "getitem p labels = Inr rows" and b: "best = map fst rows"
    unfolding get_best_index_unfold
    by (cases "getitem p labels") auto
  from l have "map (\<lambda>g. idx_best hb (group_rows g p)) (group_keys p) = map Inr labels"
    unfolding groupby_split_idx_def by (rule collect_Inr_eq)
  with r b show ?thesis by blast
qed

lemma labels_nth:
  assumes "map (\<lambda>g. idx_best hb (group_rows g p)) (group_keys p) = map Inr labels"
  shows "length labels = length (group_keys p)"
    and "i < length labels \<Longrightarrow> idx_best hb (group_rows (group_keys p ! i) p) = Inr (labels ! i)"
    and "map split_idx labels = group_keys p"
    and "\<forall>k\<in>set labels. k \<in> fst ` set p"
proof -
  from arg_cong [OF assms, of length]
  show len: "length labels = length (group_keys p)" by simp
  show nth: "idx_best hb (group_rows (group_keys p ! i) p) = Inr (labels ! i)" if "i < length labels" for i
  proof -
    have "map (\<lambda>g. idx_best hb (group_rows g p)) (group_keys p) ! i = map Inr labels ! i"
      by (simp only: assms)
    with that len show ?thesis by simp
  qed
  have mem: "\<exists>x. (labels ! i, Num x) \<in> set (group_rows (group_keys p ! i) p)" if "i < length labels" for i
    using idx_best_member [OF nth [OF that]] .
  have "split_idx (labels ! i) = group_keys p ! i" if "i < length labels" for i
    using mem [OF that] by (auto simp: group_rows_member)
  with len show "map split_idx labels = group_keys p" by (simp add: list_eq_iff_nth_eq)
  show "\<forall>k\<in>set labels. k \<in> fst ` set p"
  proof
    fix k assume "k \<in> set labels"
    then obtain i where i: "i < length labels" and k: "k = labels ! i"
      by (auto simp: in_set_conv_nth)
    from mem [OF i] obtain x where "(labels ! i, Num x) \<in> set p"
      by (auto simp: group_rows_member)
    with k show "k \<in> fst ` set p" by force
  qed
qed

lemma get_best_index_all_nan_group:
  assumes "g \<in> set (group_keys p)" and "\<forall>row\<in>set (group_rows g p). is_nan (snd row)"
  shows "\<exists>e. get_best_index p hb = Inl e"
proof -
  from assms(2) have "idx_best hb (group_rows g p) = Inl ValueError"
    by (simp only: idx_best_Inl simp_thms)
  with assms(1) have "Inl ValueError \<in> set (map (\<lambda>g. idx_best hb (group_rows g p)) (group_keys p))"
    by (force simp: image_iff)
  from collect_Inl [OF this] obtain e where "groupby_split_idx (idx_best hb) p = Inl e"
    unfolding groupby_split_idx_def by blast
  then have "get_best_index p hb = Inl e" by (simp add: get_best_index_unfold)
  then show ?thesis ..
qed

lemma valid_labels:
  assumes "\<forall>g\<in>set (group_keys p). \<exists>row\<in>set (group_rows g p). \<not> is_nan (snd row)"
  shows "\<exists>labels. map (\<lambda>g. idx_best hb (group_rows g p)) (group_keys p) = map Inr labels"
proof -
  have "\<exists>labels. map (\<lambda>g. idx_best hb (group_rows g p)) gs = map Inr labels"
    if "set gs \<subseteq> set (group_keys p)" for gs
    using that
  proof (induction gs)
    case Nil
    then show ?case by simp
  next
    case (Cons g gs)
    then obtain labels where l: "map (\<lambda>g. idx_best hb (group_rows g p)) gs = map Inr labels"
      by auto
    from Cons.prems assms have "\<exists>row\<in>set (group_rows g p). \<not> is_nan (snd row)" by simp
    from idx_best_valid [OF this] obtain k where "idx_best hb (group_rows g p) = Inr k" by blast
    with l have "map (\<lambda>g. idx_best hb (group_rows g p)) (g # gs) = map Inr (k # labels)" by simp
    then show ?case by blast
  qed
  then show ?thesis by blast
qed

lemma filter_key_distinct:
  "distinct (map fst p) \<Longrightarrow> (k, v) \<in> set p \<Longrightarrow> filter (\<lambda>row. fst row = k) p = [(k, v)]"
proof (induction p)
  case Nil
  then show ?case by simp
next
  case (Cons r p)
  show ?case
  proof (cases "fst r = k")
    case True
    with Cons.prems have "r = (k, v)"
      by (cases r) (auto simp: image_iff)
    moreover from Cons.prems True have "filter (\<lambda>row. fst row = k) p = []"
      by (auto simp: filter_empty_conv image_iff)
    ultimately show ?thesis by simp
  next
    case False
    with Cons show ?thesis by auto
  qed
qed

lemma concat_length_ge:
  "\<forall>x\<in>set xs. F x \<noteq> [] \<Longrightarrow> length xs \<le> length (concat (map F xs))"
proof (induction xs)
  case Nil
  then show ?case by simp
next
  case (Cons x xs)
  then have "1 \<le> length (F x)" by (cases "F x") auto
  with Cons show ?case by auto
qed

lemma concat_all_singletons:
  assumes "\<forall>x\<in>set xs. F x \<noteq> []" and "length (concat (map F xs)) = length xs"
  shows "\<forall>x\<in>set xs. length (F x) = 1"
  using assms
proof (induction xs)
  case Nil
  then show ?case by simp
next
  case (Cons x xs)
  from Cons.prems(1) have one: "1 \<le> length (F x)" by (cases "F x") auto
  from Cons.prems(1) have ge: "length xs \<le> length (concat (map F xs))"
    by (intro concat_length_ge) simp
  from Cons.prems(2) have "length (F x) + length (concat (map F xs)) = Suc (length xs)" by simp
  with one ge have "length (F x) = 1" "length (concat (map F xs)) = length xs" by linarith+
  with Cons show ?case by simp
qed

lemma label_rows_nonempty:
  assumes "k \<in> fst ` set p"
  shows "filter (\<lambda>row. fst row = k) p \<noteq> []"
proof -
  from assms obtain row where "row \<in> set p" "fst row = k" by auto
  then have "row \<in> set (filter (\<lambda>row. fst row = k) p)" by simp
  then show ?thesis by (metis empty_iff list.set(1))
qed

lemma singleton_label_rows:
  assumes "\<forall>k\<in>set ls. length (filter (\<lambda>row. fst row = k) p) = 1"
  shows "map fst (concat (map (\<lambda>k. filter (\<lambda>row. fst row = k) p) ls)) = ls"
  using assms
proof (induction ls)
  case Nil
  then show ?case by simp
next
  case (Cons l ls)
  let ?F = "\<lambda>k. filter (\<lambda>row. fst row = k) p"
  from Cons.prems have "length (?F l) = 1" by simp
  then obtain row where row: "?F l = [row]" by (cases "?F l") auto
  then have "row \<in> set (?F l)" by simp
  then have l: "fst row = l" by simp
  from Cons have "map fst (concat (map ?F ls)) = ls" by simp
  with row l show ?case by simp
qed

lemma get_best_index_chosen:
  assumes "get_best_index p hb = Inr best" and "k \<in> set best"
  shows "idx_best hb (group_rows (split_idx k) p) = Inr k"
proof -
  from get_best_index_Inr [OF assms(1)] obtain labels rows where
    l: "map (\<lambda>g. idx_best hb (group_rows g p)) (group_keys p) = map Inr labels" and
    r: "getitem p labels = Inr rows" and b: "best = map fst rows"
    by blast
  from assms(2) b obtain row where "row \<in> set rows" and "fst row = k" by auto
  with getitem_fst [OF r] have "k \<in> set labels" by blast
  then obtain i where i: "i < length labels" and k: "labels ! i = k"
    by (auto simp: in_set_conv_nth)
  from labels_nth(2) [OF l i] k have sel: "idx_best hb (group_rows (group_keys p ! i) p) = Inr k"
    by simp
  have "map split_idx labels ! i = group_keys p ! i" by (simp only: labels_nth(3) [OF l])
  with i k have "split_idx k = group_keys p ! i" by simp
  with sel show ?thesis by simp
qed

lemma get_best_index_split_present:
  assumes "get_best_index p hb = Inr best" and "k \<in> set best"
  shows "split_idx k \<in> set (group_keys p)"
proof -
  from idx_best_member [OF get_best_index_chosen [OF assms]] obtain x where
    "(k, Num x) \<in> set (group_rows (split_idx k) p)" by blast
  then have "(k, Num x) \<in> set p" by (simp add: group_rows_member)
  then have "split_idx k \<in> (\<lambda>row. split_idx (fst row)) ` set p" by force
  then show ?thesis by (simp only: group_keys_set)
qed

lemma get_best_index_length_ge:
  assumes "get_best_index p hb = Inr best"
  shows "length (group_keys p) \<le> length best"
proof -
  from get_best_index_Inr [OF assms] obtain labels rows where
    l: "map (\<lambda>g. idx_best hb (group_rows g p)) (group_keys p) = map Inr labels" and
    r: "getitem p labels = Inr rows" and b: "best = map fst rows"
    by blast
  have "\<forall>k\<in>set labels. filter (\<lambda>row. fst row = k) p \<noteq> []"
  proof
    fix k assume "k \<in> set labels"
    with getitem_Inr(2) [OF r] have "k \<in> fst ` set p" by blast
    then show "filter (\<lambda>row. fst row = k) p \<noteq> []" by (rule label_rows_nonempty)
  qed
  from concat_length_ge [OF this] have "length labels \<le> length rows"
    by (simp only: getitem_Inr(1) [OF r, symmetric])
  with labels_nth(1) [OF l] b show ?thesis by simp
qed

lemma get_best_index_counted:
  assumes "get_best_index p hb = Inr best" and "length best = length (group_keys p)"
  shows "map (\<lambda>g. idx_best hb (group_rows g p)) (group_keys p) = map Inr best"
    and "\<exists>rows. getitem p best = Inr rows \<and> map fst rows = best"
proof -
  let ?F = "\<lambda>k. filter (\<lambda>row. fst row = k) p"
  from get_best_index_Inr [OF assms(1)] obtain labels rows where
    l: "map (\<lambda>g. idx_best hb (group_rows g p)) (group_keys p) = map Inr labels" and
    r: "getitem p labels = Inr rows" and b: "map fst rows = best"
    by blast
  have rows: "concat (map ?F labels) = rows"
    by (rule sym) (rule getitem_Inr(1) [OF r])
  have ne: "\<forall>k\<in>set labels. ?F k \<noteq> []"
  proof
    fix k assume "k \<in> set labels"
    with getitem_Inr(2) [OF r] have "k \<in> fst ` set p" by blast
    then show "?F k \<noteq> []" by (rule label_rows_nonempty)
  qed
  have "length rows = length best" by (simp only: b [symmetric] length_map)
  with assms(2) labels_nth(1) [OF l] have "length rows = length labels" by (simp only:)
  then have "length (concat (map ?F labels)) = length labels" by (simp only: rows)
  from concat_all_singletons [OF ne this] have "\<forall>k\<in>set labels. length (?F k) = 1" .
  then have "map fst (concat (map ?F labels)) = labels" by (rule singleton_label_rows)
  then have eq: "best = labels" by (simp only: rows b)
  from l eq show "map (\<lambda>g. idx_best hb (group_rows g p)) (group_keys p) = map Inr best"
    by (simp only:)
  from r b eq show "\<exists>rows. getitem p best = Inr rows \<and> map fst rows = best"
    by blast
qed

lemma get_best_index_valid:
  assumes "distinct (map fst p)"
    and "\<forall>g\<in>set (group_keys p). \<exists>row\<in>set (group_rows g p). \<not> is_nan (snd row)"
  shows "\<exists>best. get_best_index p hb = Inr best \<and>
           map (\<lambda>g. idx_best hb (group_rows g p)) (group_keys p) = map Inr best"
proof -
  let ?F = "\<lambda>k. filter (\<lambda>row. fst row = k) p"
  from valid_labels [OF assms(2)] obtain labels where
    l: "map (\<lambda>g. idx_best hb (group_rows g p)) (group_keys p) = map Inr labels"
    by blast
  note present = labels_nth(4) [OF l]
  have "length (?F k) = 1" if "k \<in> set labels" for k
  proof -
    from present that obtain v where "(k, v) \<in> set p" by force
    from filter_key_distinct [OF assms(1) this] show ?thesis by simp
  qed
  then have "\<forall>k\<in>set labels. length (?F k) = 1" by blast
  then have "map fst (concat (map ?F labels)) = labels"
    by (rule singleton_label_rows)
  moreover have "groupby_split_idx (idx_best hb) p = Inr labels"
    unfolding groupby_split_idx_def l by (rule collect_map_Inr)
  ultimately have "get_best_index p hb = Inr labels"
    by (simp add: get_best_index_unfold getitem_total [OF present])
  with l show ?thesis by blast
qed

section \<open>Properties of the walk-forward run\<close>

lemma enumerate_filter_index:
  "filter (\<lambda>ic. fst ic = g) (enumerate n xs) =
     (if n \<le> g \<and> g < n + length xs then [(g, xs ! (g - n))] else [])"
proof (induction xs arbitrary: n)
  case Nil
  then show ?case by simp
next
  case (Cons x xs)
  show ?case
  proof (cases "n = g")
    case True
    then show ?thesis by (simp add: Cons.IH)
  next
    case False
    then show ?thesis by (auto simp: Cons.IH Suc_diff_le nth_Cons')
  qed
qed

lemma concat_map_singleton: "concat (map (\<lambda>x. [h x]) xs) = map h xs"
  by (induction xs) simp_all

lemma simulate_all_params_rows:
  assumes "simulate_all_params sharpe price windows = Inr t"
  shows "t = concat (map (\<lambda>(f, s). map (\<lambda>(i, col). ((f, s, i), sharpe col f s)) (enumerate 0 price))
                  (combinations2 windows))"
    and "combinations2 windows \<noteq> []"
  using assms by (auto simp: simulate_all_params_def split: if_splits)

lemma simulate_all_params_group_rows:
  assumes "simulate_all_params sharpe price windows = Inr t" and "g < length price"
  shows "group_rows g t =
           map (\<lambda>(f, s). ((f, s, g), sharpe (price ! g) f s)) (combinations2 windows)"
proof -
  have one: "filter (\<lambda>row. split_idx (fst row) = g)
               (map (\<lambda>ic. ((f, s, fst ic), sharpe (snd ic) f s)) (enumerate 0 price)) =
             [((f, s, g), sharpe (price ! g) f s)]" for f s
  proof -
    have "filter (\<lambda>row. split_idx (fst row) = g)
               (map (\<lambda>ic. ((f, s, fst ic), sharpe (snd ic) f s)) (enumerate 0 price)) =
          map (\<lambda>ic. ((f, s, fst ic), sharpe (snd ic) f s))
            (filter (\<lambda>ic. fst ic = g) (enumerate 0 price))"
      by (simp add: filter_map comp_def split_idx_def)
    with assms(2) show ?thesis by (simp add: enumerate_filter_index)
  qed
  show ?thesis
    unfolding group_rows_def simulate_all_params_rows(1) [OF assms(1)]
    by (simp add: filter_concat comp_def split_def one concat_map_singleton)
qed

lemma simulate_all_params_group_keys:
  assumes "simulate_all_params sharpe price windows = Inr t"
  shows "group_keys t = [0..<length price]"
proof -
  from simulate_all_params_rows [OF assms] obtain c where c: "c \<in> set (combinations2 windows)"
    and t: "t = concat (map (\<lambda>(f, s). map (\<lambda>(i, col). ((f, s, i), sharpe col f s)) (enumerate 0 price))
                  (combinations2 windows))"
    by (cases "combinations2 windows") auto
  have "(\<lambda>row. split_idx (fst row)) ` set t = {0..<length price}"
  proof (intro equalityI subsetI)
    fix g assume "g \<in> (\<lambda>row. split_idx (fst row)) ` set t"
    then show "g \<in> {0..<length price}"
      unfolding t by (auto simp: split_idx_def in_set_enumerate_eq)
  next
    fix g assume "g \<in> {0..<length price}"
    then have g: "g < length price" by simp
    from simulate_all_params_group_rows [OF assms g] c
    have "((fst c, snd c, g), sharpe (price ! g) (fst c) (snd c)) \<in> set (group_rows g t)"
      by (force simp: split_def)
    then have "((fst c, snd c, g), sharpe (price ! g) (fst c) (snd c)) \<in> set t"
      by (simp add: group_rows_member)
    then show "g \<in> (\<lambda>row. split_idx (fst row)) ` set t"
      by (force simp: split_idx_def)
  qed
  then show ?thesis by (simp add: group_keys_def)
qed

lemma rolling_split_nonempty:
  "rolling_split X n w ls ltr = Inr splits \<Longrightarrow> splits \<noteq> []"
  unfolding rolling_split_def Let_def
  by (auto split: sum.splits if_splits)

lemma walk_forward_cells:
  assumes "walk_forward sharpe price n w k windows = Inr r"
  shows "\<exists>splits rows.
           rolling_split price (Some n) (Some w) [k] False = Inr splits \<and>
           in_price r = set_frame price splits 0 \<and>
           out_price r = set_frame price splits 1 \<and>
           simulate_all_params sharpe (in_price r) windows = Inr (in_sharpe r) \<and>
           get_best_index (in_sharpe r) True = Inr (in_best_index r) \<and>
           in_best_fast_windows r = map fast_window (in_best_index r) \<and>
           in_best_slow_windows r = map slow_window (in_best_index r) \<and>
           simulate_best_params sharpe (out_price r) (in_best_fast_windows r) (in_best_slow_windows r)
             = Inr (out_test_sharpe r) \<and>
           getitem (in_sharpe r) (in_best_index r) = Inr rows \<and>
           in_sample_best r = map snd rows \<and>
           out_sample_test r = out_test_sharpe r"
  using assms unfolding walk_forward_def get_best_params_def
  by (auto split: sum.splits)

lemma broadcast_params_Inr:
  "broadcast_params ps m = Inr qs \<Longrightarrow> length ps = m \<or> length ps = 1"
  by (auto simp: broadcast_params_def split: if_splits)

lemma broadcast_params_same: "length ps = m \<Longrightarrow> broadcast_params ps m = Inr ps"
  by (simp add: broadcast_params_def)

lemma simulate_best_params_lengths:
  assumes "simulate_best_params sharpe price fast slow = Inr out"
  shows "length fast = length price \<or> length fast = 1"
proof -
  from assms obtain qs where "broadcast_params fast (length price) = Inr qs"
    unfolding simulate_best_params_def
    by (cases "broadcast_params fast (length price)") simp_all
  then show ?thesis by (rule broadcast_params_Inr)
qed

lemma simulate_best_params_same:
  assumes "length fast = length price" and "length slow = length price"
  shows "simulate_best_params sharpe price fast slow =
           Inr (map (\<lambda>(col, f, s). sharpe col f s) (best_params_calls price fast slow))"
  by (simp add: simulate_best_params_def broadcast_params_same [OF assms(1)]
      broadcast_params_same [OF assms(2)])

lemma best_params_calls_nth:
  assumes "length fast = length price" and "length slow = length price"
  shows "best_params_calls price fast slow = map (\<lambda>i. (price ! i, fast ! i, slow ! i)) [0..<length price]"
  unfolding best_params_calls_def using assms by (intro nth_equalityI) simp_all

lemma set_frame_length: "length (set_frame X splits j) = length splits"
  by (simp add: set_frame_def)


lemma walk_forward_best_index:
  assumes "walk_forward sharpe price n w k windows = Inr r"
  shows "length (in_best_index r) = length (out_price r)"
    and "map split_idx (in_best_index r) = [0..<length (out_price r)]"
    and "\<exists>rows. getitem (in_sharpe r) (in_best_index r) = Inr rows \<and>
           map fst rows = in_best_index r"
proof -
  from walk_forward_cells [OF assms] obtain splits rows where
    split: "rolling_split price (Some n) (Some w) [k] False = Inr splits" and
    ip: "in_price r = set_frame price splits 0" and
    op: "out_price r = set_frame price splits 1" and
    sim: "simulate_all_params sharpe (in_price r) windows = Inr (in_sharpe r)" and
    best: "get_best_index (in_sharpe r) True = Inr (in_best_index r)" and
    fast: "in_best_fast_windows r = map fast_window (in_best_index r)" and
    out: "simulate_best_params sharpe (out_price r) (in_best_fast_windows r) (in_best_slow_windows r)
             = Inr (out_test_sharpe r)"
    by blast
  have keys: "group_keys (in_sharpe r) = [0..<length (out_price r)]"
    using simulate_all_params_group_keys [OF sim] by (simp add: ip op set_frame_length)
  from rolling_split_nonempty [OF split] have pos: "0 < length (out_price r)"
    by (simp add: op set_frame_length)
  from get_best_index_length_ge [OF best] keys
  have ge: "length (out_price r) \<le> length (in_best_index r)" by simp
  from simulate_best_params_lengths [OF out] fast
  have "length (in_best_index r) = length (out_price r) \<or> length (in_best_index r) = 1" by simp
  with ge pos show len: "length (in_best_index r) = length (out_price r)" by linarith
  with keys have cnt: "length (in_best_index r) = length (group_keys (in_sharpe r))" by simp
  note labels = get_best_index_counted(1) [OF best cnt]
  from labels_nth(3) [OF labels] keys
  show "map split_idx (in_best_index r) = [0..<length (out_price r)]" by simp
  from get_best_index_counted(2) [OF best cnt]
  show "\<exists>rows. getitem (in_sharpe r) (in_best_index r) = Inr rows \<and>
           map fst rows = in_best_index r" .
qed

lemma walk_forward_vectors:
  assumes "walk_forward sharpe price n w k windows = Inr r"
  shows "length (in_sample_best r) = length (out_price r)"
    and "length (out_sample_test r) = length (out_price r)"
    and "\<forall>i<length (out_price r).
           (in_best_index r ! i, in_sample_best r ! i) \<in> set (in_sharpe r) \<and>
           out_sample_test r ! i =
             sharpe (out_price r ! i) (fast_window (in_best_index r ! i))
               (slow_window (in_best_index r ! i))"
proof -
  from walk_forward_cells [OF assms] obtain splits rows where
    fast: "in_best_fast_windows r = map fast_window (in_best_index r)" and
    slow: "in_best_slow_windows r = map slow_window (in_best_index r)" and
    out: "simulate_best_params sharpe (out_price r) (in_best_fast_windows r) (in_best_slow_windows r)
             = Inr (out_test_sharpe r)" and
    rows: "getitem (in_sharpe r) (in_best_index r) = Inr rows" and
    isb: "in_sample_best r = map snd rows" and
    ost: "out_sample_test r = out_test_sharpe r"
    by blast
  note len = walk_forward_best_index(1) [OF assms]
  from walk_forward_best_index(3) [OF assms] rows
  have "map fst rows = in_best_index r" by auto
  then have fst_rows: "in_best_index r = map fst rows" by (rule sym)
  then have len_rows: "length rows = length (out_price r)" using len by simp
  with isb show "length (in_sample_best r) = length (out_price r)" by simp
  from len fast slow have lens: "length (in_best_fast_windows r) = length (out_price r)"
    "length (in_best_slow_windows r) = length (out_price r)" by simp_all
  from out have calls: "out_test_sharpe r = map (\<lambda>i. sharpe (out_price r ! i) (in_best_fast_windows r ! i)
                  (in_best_slow_windows r ! i)) [0..<length (out_price r)]"
    unfolding simulate_best_params_same [OF lens] best_params_calls_nth [OF lens]
    by (simp add: comp_def)
  then show "length (out_sample_test r) = length (out_price r)"
    unfolding ost by simp
  show "\<forall>i<length (out_price r).
           (in_best_index r ! i, in_sample_best r ! i) \<in> set (in_sharpe r) \<and>
           out_sample_test r ! i =
             sharpe (out_price r ! i) (fast_window (in_best_index r ! i))
               (slow_window (in_best_index r ! i))"
  proof (intro allI impI conjI)
    fix i assume i: "i < length (out_price r)"
    with len_rows have "rows ! i \<in> set rows" by simp
    with getitem_subset [OF rows] have "rows ! i \<in> set (in_sharpe r)" by blast
    moreover from i len_rows have "(in_best_index r ! i, in_sample_best r ! i) = rows ! i"
      unfolding fst_rows isb by simp
    ultimately show "(in_best_index r ! i, in_sample_best r ! i) \<in> set (in_sharpe r)" by simp
    from i len show "out_sample_test r ! i =
             sharpe (out_price r ! i) (fast_window (in_best_index r ! i))
               (slow_window (in_best_index r ! i))"
      unfolding ost calls fast slow by simp
  qed
qed


section \<open>Claims about best selection\<close>

lemma idx_best_extreme:
  assumes "idx_best hb rows = Inr k"
  shows "\<exists>x. (k, Num x) \<in> set rows \<and>
           (\<forall>row\<in>set rows. \<forall>y. snd row = Num y \<longrightarrow> (if hb then y \<le> x else x \<le> y))"
proof -
  from idx_best_Inr [OF assms] obtain pre x post where
    d: "rows = pre @ (k, Num x) # post" and
    p: "\<forall>row\<in>set pre. \<forall>y. snd row = Num y \<longrightarrow> (if hb then y < x else x < y)" and
    q: "\<forall>row\<in>set post. \<forall>y. snd row = Num y \<longrightarrow> (if hb then y \<le> x else x \<le> y)"
    by blast
  have "(if hb then y \<le> x else x \<le> y)" if "row \<in> set rows" and "snd row = Num y" for row y
  proof -
    from that(1) d consider "row \<in> set pre" | "row = (k, Num x)" | "row \<in> set post" by auto
    then show ?thesis
    proof cases
      case 1
      with p that(2) have "if hb then y < x else x < y" by blast
      then show ?thesis by (cases hb) simp_all
    next
      case 2
      with that(2) show ?thesis by simp
    next
      case 3
      with q that(2) show ?thesis by blast
    qed
  qed
  moreover from d have "(k, Num x) \<in> set rows" by simp
  ultimately show ?thesis by blast
qed

text \<open>
  Claim C1, as the code has it. Take a score table with one row per label. If every split
  of the table has at least one score that is not NaN, \<^verbatim>\<open>get_best_index\<close> returns one
  label per split, and the score of each returned label is a number, the extreme one among
  the numbers of its split: NaN is never selected. If some split has only NaN scores,
  the call as a whole raises and no split gets a selection.
\<close>

theorem get_best_index_nan:
  assumes "distinct (map fst performance)"
  shows "((\<forall>g\<in>set (group_keys performance). \<exists>row\<in>set (group_rows g performance). \<not> is_nan (snd row)) \<longrightarrow>
            (\<exists>best. get_best_index performance hb = Inr best \<and>
               map split_idx best = group_keys performance \<and>
               (\<forall>k\<in>set best. \<exists>x. (k, Num x) \<in> set performance \<and>
                  (\<forall>row\<in>set (group_rows (split_idx k) performance). \<forall>y.
                      snd row = Num y \<longrightarrow> (if hb then y \<le> x else x \<le> y))))) \<and>
         ((\<exists>g\<in>set (group_keys performance). \<forall>row\<in>set (group_rows g performance). is_nan (snd row)) \<longrightarrow>
            (\<exists>e. get_best_index performance hb = Inl e))"
proof (intro conjI impI)
  assume valid: "\<forall>g\<in>set (group_keys performance). \<exists>row\<in>set (group_rows g performance). \<not> is_nan (snd row)"
  from get_best_index_valid [OF assms valid, of hb] obtain best where
    best: "get_best_index performance hb = Inr best" and
    labels: "map (\<lambda>g. idx_best hb (group_rows g performance)) (group_keys performance) = map Inr best"
    by blast
  have "\<exists>x. (k, Num x) \<in> set performance \<and>
          (\<forall>row\<in>set (group_rows (split_idx k) performance). \<forall>y.
              snd row = Num y \<longrightarrow> (if hb then y \<le> x else x \<le> y))" if "k \<in> set best" for k
  proof -
    from get_best_index_chosen [OF best that]
    have "idx_best hb (group_rows (split_idx k) performance) = Inr k" .
    from idx_best_extreme [OF this] obtain x where
      x: "(k, Num x) \<in> set (group_rows (split_idx k) performance)" and
      ext: "\<forall>row\<in>set (group_rows (split_idx k) performance). \<forall>y.
              snd row = Num y \<longrightarrow> (if hb then y \<le> x else x \<le> y)"
      by blast
    from x have "(k, Num x) \<in> set performance" by (simp add: group_rows_member)
    with ext show ?thesis by blast
  qed
  with best labels_nth(3) [OF labels]
  show "\<exists>best. get_best_index performance hb = Inr best \<and>
               map split_idx best = group_keys performance \<and>
               (\<forall>k\<in>set best. \<exists>x. (k, Num x) \<in> set performance \<and>
                  (\<forall>row\<in>set (group_rows (split_idx k) performance). \<forall>y.
                      snd row = Num y \<longrightarrow> (if hb then y \<le> x else x \<le> y)))"
    by blast
next
  assume "\<exists>g\<in>set (group_keys performance). \<forall>row\<in>set (group_rows g performance). is_nan (snd row)"
  then obtain g where "g \<in> set (group_keys performance)"
    "\<forall>row\<in>set (group_rows g performance). is_nan (snd row)" by blast
  then show "\<exists>e. get_best_index performance hb = Inl e"
    by (rule get_best_index_all_nan_group)
qed

theorem get_best_index_nan_witness:
  "distinct (map fst ([((10, 20, 0), Num 1), ((10, 30, 0), NaN), ((10, 20, 1), Num 2), ((10, 30, 1), Num 3)] :: (key \<times> int score) list)) \<and>
   list_all (\<lambda>g. \<exists>row\<in>set (group_rows g ([((10, 20, 0), Num 1), ((10, 30, 0), NaN), ((10, 20, 1), Num 2), ((10, 30, 1), Num 3)] :: (key \<times> int score) list)). \<not> is_nan (snd row)) (group_keys ([((10, 20, 0), Num 1), ((10, 30, 0), NaN), ((10, 20, 1), Num 2), ((10, 30, 1), Num 3)] :: (key \<times> int score) list)) \<and>
   (\<exists>best. get_best_index ([((10, 20, 0), Num 1), ((10, 30, 0), NaN), ((10, 20, 1), Num 2), ((10, 30, 1), Num 3)] :: (key \<times> int score) list) True = Inr best \<and>
       map split_idx best = group_keys ([((10, 20, 0), Num 1), ((10, 30, 0), NaN), ((10, 20, 1), Num 2), ((10, 30, 1), Num 3)] :: (key \<times> int score) list) \<and>
       (\<forall>k\<in>set best. \<exists>x. (k, Num x) \<in> set ([((10, 20, 0), Num 1), ((10, 30, 0), NaN), ((10, 20, 1), Num 2), ((10, 30, 1), Num 3)] :: (key \<times> int score) list) \<and>
          (\<forall>row\<in>set (group_rows (split_idx k) ([((10, 20, 0), Num 1), ((10, 30, 0), NaN), ((10, 20, 1), Num 2), ((10, 30, 1), Num 3)] :: (key \<times> int score) list)). \<forall>y.
              snd row = Num y \<longrightarrow> (if True then y \<le> x else x \<le> y)))) \<and>
   distinct (map fst ([((10, 20, 0), Num 1), ((10, 30, 0), NaN), ((10, 20, 1), NaN)] :: (key \<times> int score) list)) \<and>
   (\<exists>g\<in>set (group_keys ([((10, 20, 0), Num 1), ((10, 30, 0), NaN), ((10, 20, 1), NaN)] :: (key \<times> int score) list)). \<forall>row\<in>set (group_rows g ([((10, 20, 0), Num 1), ((10, 30, 0), NaN), ((10, 20, 1), NaN)] :: (key \<times> int score) list)). is_nan (snd row)) \<and>
   (\<exists>e. get_best_index ([((10, 20, 0), Num 1), ((10, 30, 0), NaN), ((10, 20, 1), NaN)] :: (key \<times> int score) list) True = Inl e)"
proof -
  have d: "distinct (map fst ([((10, 20, 0), Num 1), ((10, 30, 0), NaN), ((10, 20, 1), Num 2), ((10, 30, 1), Num 3)] :: (key \<times> int score) list))"
    by simp
  have v: "\<forall>g\<in>set (group_keys ([((10, 20, 0), Num 1), ((10, 30, 0), NaN), ((10, 20, 1), Num 2), ((10, 30, 1), Num 3)] :: (key \<times> int score) list)). \<exists>row\<in>set (group_rows g ([((10, 20, 0), Num 1), ((10, 30, 0), NaN), ((10, 20, 1), Num 2), ((10, 30, 1), Num 3)] :: (key \<times> int score) list)). \<not> is_nan (snd row)"
    by code_simp
  have d': "distinct (map fst ([((10, 20, 0), Num 1), ((10, 30, 0), NaN), ((10, 20, 1), NaN)] :: (key \<times> int score) list))"
    by simp
  have v': "\<exists>g\<in>set (group_keys ([((10, 20, 0), Num 1), ((10, 30, 0), NaN), ((10, 20, 1), NaN)] :: (key \<times> int score) list)). \<forall>row\<in>set (group_rows g ([((10, 20, 0), Num 1), ((10, 30, 0), NaN), ((10, 20, 1), NaN)] :: (key \<times> int score) list)). is_nan (snd row)"
    by code_simp
  from get_best_index_nan [OF d, of True] v
  have 1: "\<exists>best. get_best_index ([((10, 20, 0), Num 1), ((10, 30, 0), NaN), ((10, 20, 1), Num 2), ((10, 30, 1), Num 3)] :: (key \<times> int score) list) True = Inr best \<and>
       map split_idx best = group_keys ([((10, 20, 0), Num 1), ((10, 30, 0), NaN), ((10, 20, 1), Num 2), ((10, 30, 1), Num 3)] :: (key \<times> int score) list) \<and>
       (\<forall>k\<in>set best. \<exists>x. (k, Num x) \<in> set ([((10, 20, 0), Num 1), ((10, 30, 0), NaN), ((10, 20, 1), Num 2), ((10, 30, 1), Num 3)] :: (key \<times> int score) list) \<and>
          (\<forall>row\<in>set (group_rows (split_idx k) ([((10, 20, 0), Num 1), ((10, 30, 0), NaN), ((10, 20, 1), Num 2), ((10, 30, 1), Num 3)] :: (key \<times> int score) list)). \<forall>y.
              snd row = Num y \<longrightarrow> (if True then y \<le> x else x \<le> y)))"
    by blast
  from get_best_index_nan [OF d', of True] v'
  have 2: "\<exists>e. get_best_index ([((10, 20, 0), Num 1), ((10, 30, 0), NaN), ((10, 20, 1), NaN)] :: (key \<times> int score) list) True = Inl e"
    by blast
  from v have v2: "list_all (\<lambda>g. \<exists>row\<in>set (group_rows g ([((10, 20, 0), Num 1), ((10, 30, 0), NaN), ((10, 20, 1), Num 2), ((10, 30, 1), Num 3)] :: (key \<times> int score) list)). \<not> is_nan (snd row)) (group_keys ([((10, 20, 0), Num 1), ((10, 30, 0), NaN), ((10, 20, 1), Num 2), ((10, 30, 1), Num 3)] :: (key \<times> int score) list))"
    by (simp only: list_all_iff)
  from d v2 1 d' v' 2 show ?thesis by blast
qed

text \<open>
  The claim as stated fails on a table in which split 0 has a number and split 1 has only
  NaN: split 0 gets no pair, because the call raises.
\<close>

theorem get_best_index_nan_counterexample:
  "((10, 20, 0), Num (1::int)) \<in> set (group_rows 0 [((10, 20, 0), Num 1), ((10, 20, 1), NaN)]) \<and>
   (\<exists>e. get_best_index [((10, 20, 0), Num (1::int)), ((10, 20, 1), NaN)] True = Inl e)"
proof -
  have "get_best_index [((10, 20, 0), Num (1::int)), ((10, 20, 1), NaN)] True = Inl ValueError"
    by code_simp
  moreover have "((10, 20, 0), Num (1::int)) \<in> set (group_rows 0 [((10, 20, 0), Num 1), ((10, 20, 1), NaN)])"
    by code_simp
  ultimately show ?thesis by blast
qed

text \<open>
  Claim C8, as the code has it. Among the rows of a split that share the extreme score,
  \<^verbatim>\<open>get_best_index\<close> returns the one that comes first in the row order of the table:
  every earlier row of the split with a number is strictly worse, no later row is better.
  The selection knows no grid. A table that \<^verbatim>\<open>simulate_all_params\<close> built lists the
  rows of every split in the enumeration order of the grid, and there the earliest pair
  of the grid wins the tie.
\<close>

theorem get_best_index_tie_break:
  assumes "get_best_index performance hb = Inr best" and "k \<in> set best"
  shows "(\<exists>pre x post. group_rows (split_idx k) performance = pre @ (k, Num x) # post \<and>
            (\<forall>row\<in>set pre. \<forall>y. snd row = Num y \<longrightarrow> (if hb then y < x else x < y)) \<and>
            (\<forall>row\<in>set post. \<forall>y. snd row = Num y \<longrightarrow> (if hb then y \<le> x else x \<le> y))) \<and>
         (simulate_all_params sharpe price windows = Inr performance \<longrightarrow>
            map (\<lambda>row. (fast_window (fst row), slow_window (fst row)))
              (group_rows (split_idx k) performance) = combinations2 windows)"
proof (intro conjI impI)
  from get_best_index_chosen [OF assms]
  have "idx_best hb (group_rows (split_idx k) performance) = Inr k" .
  then show "\<exists>pre x post. group_rows (split_idx k) performance = pre @ (k, Num x) # post \<and>
            (\<forall>row\<in>set pre. \<forall>y. snd row = Num y \<longrightarrow> (if hb then y < x else x < y)) \<and>
            (\<forall>row\<in>set post. \<forall>y. snd row = Num y \<longrightarrow> (if hb then y \<le> x else x \<le> y))"
    by (rule idx_best_Inr)
next
  assume sim: "simulate_all_params sharpe price windows = Inr performance"
  from get_best_index_split_present [OF assms]
  have "split_idx k \<in> set (group_keys performance)" .
  with simulate_all_params_group_keys [OF sim] have "split_idx k < length price" by simp
  from simulate_all_params_group_rows [OF sim this]
  show "map (\<lambda>row. (fast_window (fst row), slow_window (fst row)))
              (group_rows (split_idx k) performance) = combinations2 windows"
    by (simp add: comp_def split_def fast_window_def slow_window_def)
qed

theorem get_best_index_tie_break_witness:
  "get_best_index ([((10, 20, 0), Num 5), ((10, 30, 0), Num 5), ((20, 30, 0), Num 1)] :: (key \<times> int score) list) True = Inr [(10, 20, 0)] \<and>
   (10, 20, 0) \<in> set [(10, 20, 0) :: key] \<and>
   simulate_all_params (\<lambda>col f s. Num (if f = 10 then 5 else 1)) ([[1, 2]] :: int list list) [10, 20, 30] = Inr ([((10, 20, 0), Num 5), ((10, 30, 0), Num 5), ((20, 30, 0), Num 1)] :: (key \<times> int score) list) \<and>
   (\<exists>pre x post. group_rows (split_idx (10, 20, 0)) ([((10, 20, 0), Num 5), ((10, 30, 0), Num 5), ((20, 30, 0), Num 1)] :: (key \<times> int score) list) = pre @ ((10, 20, 0), Num x) # post \<and>
      (\<forall>row\<in>set pre. \<forall>y. snd row = Num y \<longrightarrow> (if True then y < x else x < y)) \<and>
      (\<forall>row\<in>set post. \<forall>y. snd row = Num y \<longrightarrow> (if True then y \<le> x else x \<le> y))) \<and>
   map (\<lambda>row. (fast_window (fst row), slow_window (fst row)))
     (group_rows (split_idx (10, 20, 0)) ([((10, 20, 0), Num 5), ((10, 30, 0), Num 5), ((20, 30, 0), Num 1)] :: (key \<times> int score) list)) = combinations2 [10, 20, 30]"
proof -
  have b: "get_best_index ([((10, 20, 0), Num 5), ((10, 30, 0), Num 5), ((20, 30, 0), Num 1)] :: (key \<times> int score) list) True = Inr [(10, 20, 0)]"
    by code_simp
  have m: "(10, 20, 0) \<in> set [(10, 20, 0) :: key]"
    by simp
  have sim: "simulate_all_params (\<lambda>col f s. Num (if f = 10 then 5 else 1)) ([[1, 2]] :: int list list) [10, 20, 30] = Inr ([((10, 20, 0), Num 5), ((10, 30, 0), Num 5), ((20, 30, 0), Num 1)] :: (key \<times> int score) list)"
    by code_simp
  from get_best_index_tie_break [OF b m, of "(\<lambda>col f s. Num (if f = 10 then 5 else 1))" "([[1, 2]] :: int list list)" "[10, 20, 30]"] sim b m
  show ?thesis by blast
qed

text \<open>
  The claim as stated fails when the rows are not in grid order: (10, 20) precedes (20, 30)
  in the grid of the windows 10, 20, 30, both have the same score, and the row of (20, 30)
  comes first in the table and is returned.
\<close>

theorem get_best_index_tie_break_counterexample:
  "combinations2 [10, 20, 30 :: nat] = [(10, 20), (10, 30), (20, 30)] \<and>
   get_best_index [((20, 30, 0), Num (1::int)), ((10, 20, 0), Num 1)] True = Inr [(20, 30, 0)]"
  by code_simp

section \<open>Claims about the walk-forward run\<close>

lemma walk_forward_example:
  "walk_forward toy_sharpe sr 2 5 1 [10, 20, 30] = Inr toy_run"
  by code_simp

lemma toy_table_valid:
  "distinct (map fst toy_table)"
  "\<forall>g\<in>set (group_keys toy_table). \<exists>row\<in>set (group_rows g toy_table). \<not> is_nan (snd row)"
  by code_simp+



text \<open>
  Claim C10, as the code has it. For a score table with one row per label in which every
  split has a score that is not NaN, \<^verbatim>\<open>get_best_index\<close> returns exactly one label per
  split of the table, in ascending order of \<^verbatim>\<open>split_idx\<close>. Whenever the cells of the
  notebook run through, the selected labels belong to the splits \<open>0, 1, \<dots>\<close> in this order,
  the vector of the best in-sample scores and the vector of the out-of-sample scores both
  have one entry per split, and entry \<open>i\<close> of either belongs to split \<open>i\<close>: the first is
  the in-sample score of the label selected for split \<open>i\<close>, the second the score of
  out-of-sample column \<open>i\<close> under the windows of that label.
\<close>

theorem best_index_alignment:
  "(distinct (map fst performance) \<longrightarrow>
      (\<forall>g\<in>set (group_keys performance). \<exists>row\<in>set (group_rows g performance). \<not> is_nan (snd row)) \<longrightarrow>
      (\<exists>best. get_best_index performance hb = Inr best \<and>
         map split_idx best = group_keys performance \<and>
         sorted_wrt (<) (map split_idx best) \<and>
         set (map split_idx best) = (\<lambda>row. split_idx (fst row)) ` set performance)) \<and>
   (walk_forward sharpe price n w k windows = Inr r \<longrightarrow>
      map split_idx (in_best_index r) = [0..<length (out_price r)] \<and>
      length (in_sample_best r) = length (out_price r) \<and>
      length (out_sample_test r) = length (out_price r) \<and>
      (\<forall>i<length (out_price r).
         (in_best_index r ! i, in_sample_best r ! i) \<in> set (in_sharpe r) \<and>
         out_sample_test r ! i =
           sharpe (out_price r ! i) (fast_window (in_best_index r ! i))
             (slow_window (in_best_index r ! i))))"
proof (intro conjI impI)
  assume d: "distinct (map fst performance)"
    and v: "\<forall>g\<in>set (group_keys performance). \<exists>row\<in>set (group_rows g performance). \<not> is_nan (snd row)"
  from get_best_index_valid [OF d v, of hb] obtain best where
    best: "get_best_index performance hb = Inr best" and
    labels: "map (\<lambda>g. idx_best hb (group_rows g performance)) (group_keys performance) = map Inr best"
    by blast
  note keys = labels_nth(3) [OF labels]
  have "sorted_wrt (<) (map split_idx best)"
    unfolding keys by (rule group_keys_ascending)
  moreover have "set (map split_idx best) = (\<lambda>row. split_idx (fst row)) ` set performance"
    unfolding keys by (rule group_keys_set)
  ultimately show "\<exists>best. get_best_index performance hb = Inr best \<and>
         map split_idx best = group_keys performance \<and>
         sorted_wrt (<) (map split_idx best) \<and>
         set (map split_idx best) = (\<lambda>row. split_idx (fst row)) ` set performance"
    using best keys by blast
next
  assume run: "walk_forward sharpe price n w k windows = Inr r"
  show "map split_idx (in_best_index r) = [0..<length (out_price r)]"
    by (rule walk_forward_best_index(2) [OF run])
  show "length (in_sample_best r) = length (out_price r)"
    by (rule walk_forward_vectors(1) [OF run])
  show "length (out_sample_test r) = length (out_price r)"
    by (rule walk_forward_vectors(2) [OF run])
  show "\<forall>i<length (out_price r).
         (in_best_index r ! i, in_sample_best r ! i) \<in> set (in_sharpe r) \<and>
         out_sample_test r ! i =
           sharpe (out_price r ! i) (fast_window (in_best_index r ! i))
             (slow_window (in_best_index r ! i))"
    by (rule walk_forward_vectors(3) [OF run])
qed

theorem best_index_alignment_witness:
  "distinct (map fst toy_table) \<and>
   list_all (\<lambda>g. \<exists>row\<in>set (group_rows g toy_table). \<not> is_nan (snd row)) (group_keys toy_table) \<and>
   (\<exists>best. get_best_index toy_table True = Inr best \<and>
      map split_idx best = group_keys toy_table \<and>
      sorted_wrt (<) (map split_idx best) \<and>
      set (map split_idx best) = (\<lambda>row. split_idx (fst row)) ` set toy_table) \<and>
   walk_forward toy_sharpe sr 2 5 1 [10, 20, 30] = Inr toy_run \<and>
   map split_idx (in_best_index toy_run) = [0..<length (out_price toy_run)] \<and>
   length (in_sample_best toy_run) = length (out_price toy_run) \<and>
   length (out_sample_test toy_run) = length (out_price toy_run) \<and>
   (in_best_index toy_run ! 1, in_sample_best toy_run ! 1) \<in> set (in_sharpe toy_run) \<and>
   out_sample_test toy_run ! 1 =
     toy_sharpe (out_price toy_run ! 1) (fast_window (in_best_index toy_run ! 1))
       (slow_window (in_best_index toy_run ! 1))"
proof -
  note d = toy_table_valid(1) and v = toy_table_valid(2) and run = walk_forward_example
  note inst = best_index_alignment [where performance = toy_table and hb = True
    and sharpe = toy_sharpe and price = sr and n = 2 and w = 5 and k = 1
    and windows = "[10, 20, 30]" and r = toy_run]
  from inst d v have 1: "(\<exists>best. get_best_index toy_table True = Inr best \<and>
      map split_idx best = group_keys toy_table \<and>
      sorted_wrt (<) (map split_idx best) \<and>
      set (map split_idx best) = (\<lambda>row. split_idx (fst row)) ` set toy_table)"
    by blast
  from inst run have 2: "map split_idx (in_best_index toy_run) = [0..<length (out_price toy_run)] \<and>
   length (in_sample_best toy_run) = length (out_price toy_run) \<and>
   length (out_sample_test toy_run) = length (out_price toy_run) \<and>
   (\<forall>i<length (out_price toy_run).
      (in_best_index toy_run ! i, in_sample_best toy_run ! i) \<in> set (in_sharpe toy_run) \<and>
      out_sample_test toy_run ! i =
        toy_sharpe (out_price toy_run ! i) (fast_window (in_best_index toy_run ! i))
          (slow_window (in_best_index toy_run ! i)))"
    by blast
  have "1 < length (out_price toy_run)"
    by (simp add: toy_run_def)
  with 2 have 3: "map split_idx (in_best_index toy_run) = [0..<length (out_price toy_run)] \<and>
   length (in_sample_best toy_run) = length (out_price toy_run) \<and>
   length (out_sample_test toy_run) = length (out_price toy_run) \<and>
   (in_best_index toy_run ! 1, in_sample_best toy_run ! 1) \<in> set (in_sharpe toy_run) \<and>
   out_sample_test toy_run ! 1 =
     toy_sharpe (out_price toy_run ! 1) (fast_window (in_best_index toy_run ! 1))
       (slow_window (in_best_index toy_run ! 1))"
    by blast
  from v have v2: "list_all (\<lambda>g. \<exists>row\<in>set (group_rows g toy_table). \<not> is_nan (snd row))
      (group_keys toy_table)"
    by (simp only: list_all_iff)
  from d v2 1 run 3 show ?thesis by blast
qed

text \<open>
  The claim as stated fails on a table whose only split has no number: no index is
  returned, the call raises.
\<close>

theorem best_index_alignment_counterexample:
  "\<exists>e. get_best_index [((10, 20, 0), NaN :: int score)] True = Inl e"
proof -
  have "get_best_index [((10, 20, 0), NaN :: int score)] True = Inl ValueError"
    by code_simp
  then show ?thesis ..
qed

section \<open>Claims about the significance comparison\<close>

lemma threshold_value: "threshold = 5 / 100 + 1 / (5 * 2 ^ 56)"
  by (simp add: threshold_def)

lemma exceeds_iff: "exceeds p c \<longleftrightarrow> (\<exists>x. p = Num x \<and> c < x)"
  by (cases p) simp_all

text \<open>
  Claim C7. The comparison runs the two-sample test with the out-of-sample scores as the
  first sample, the best in-sample scores as the second and the alternative "greater"
  (the first sample is the one supposed to be greater). Whenever the test returns a
  statistic and a p-value, the comparison returns them with its boolean, which is true
  exactly when the p-value is a number above the threshold and false for every p-value
  at or below the threshold (and for NaN), never the other way round. The threshold is the
  double written \<^verbatim>\<open>0.05\<close>, which exceeds one twentieth by \<open>1 / (5 * 2^56)\<close>.
\<close>

theorem significance_test_decision:
  assumes "ttest_ind a b Greater = Inr (t, p)"
  shows "significance_test ttest_ind a b =
           Inr \<lparr>statistic = t, pvalue = p, p_above_threshold = exceeds p threshold\<rparr> \<and>
         (exceeds p threshold \<longleftrightarrow> (\<exists>x. p = Num x \<and> threshold < x)) \<and>
         threshold = 5 / 100 + 1 / (5 * 2 ^ 56)"
proof (intro conjI)
  show "significance_test ttest_ind a b =
           Inr \<lparr>statistic = t, pvalue = p, p_above_threshold = exceeds p threshold\<rparr>"
    by (simp add: significance_test_def assms)
  show "exceeds p threshold \<longleftrightarrow> (\<exists>x. p = Num x \<and> threshold < x)"
    by (rule exceeds_iff)
  show "threshold = 5 / 100 + 1 / (5 * 2 ^ 56)"
    by (rule threshold_value)
qed

theorem significance_test_decision_witness:
  "constant_test (Num 0) (Num (1 / 2)) [Num (1::int)] [Num 1] Greater = Inr (Num 0, Num (1 / 2)) \<and>
   significance_test (constant_test (Num 0) (Num (1 / 2))) [Num (1::int)] [Num 1] =
     Inr \<lparr>statistic = Num 0, pvalue = Num (1 / 2), p_above_threshold = True\<rparr> \<and>
   constant_test (Num 2) (Num (1 / 100)) [Num (1::int)] [Num 1] Greater = Inr (Num 2, Num (1 / 100)) \<and>
   significance_test (constant_test (Num 2) (Num (1 / 100))) [Num (1::int)] [Num 1] =
     Inr \<lparr>statistic = Num 2, pvalue = Num (1 / 100), p_above_threshold = False\<rparr>"
proof -
  have hi: "constant_test (Num 0) (Num (1 / 2)) [Num (1::int)] [Num 1] Greater = Inr (Num 0, Num (1 / 2))"
    and lo: "constant_test (Num 2) (Num (1 / 100)) [Num (1::int)] [Num 1] Greater = Inr (Num 2, Num (1 / 100))"
    by (simp_all add: constant_test_def)
  have above: "exceeds (Num (1 / 2)) threshold = True"
    and below: "exceeds (Num (1 / 100)) threshold = False"
    by (simp_all add: threshold_def)
  from significance_test_decision [of "constant_test (Num 0) (Num (1 / 2))" "[Num (1::int)]"
      "[Num 1]" "Num 0" "Num (1 / 2)", OF hi]
    significance_test_decision [of "constant_test (Num 2) (Num (1 / 100))" "[Num (1::int)]"
      "[Num 1]" "Num 2" "Num (1 / 100)", OF lo] hi lo
  show ?thesis by (simp only: above below simp_thms)
qed

text \<open>
  Claim C6, as the code has it. The comparison checks neither the lengths nor the
  alignment of the two vectors: it hands them to the two-sample test as they are and
  raises exactly when the test raises, with the exception of the test.
\<close>

theorem significance_test_no_check:
  "significance_test ttest_ind a b = Inl e \<longleftrightarrow>
   ttest_ind a b Greater = Inl e"
  unfolding significance_test_def by (auto split: sum.splits prod.splits)

text \<open>
  The claim as stated fails for an out-of-sample vector of two scores and an in-sample
  vector of three, with a test that returns a statistic and a p-value for them (the
  t-test for independent samples does not need samples of equal size): the comparison
  returns a result.
\<close>

theorem significance_test_no_check_counterexample:
  "length [Num 1, Num (2::real)] \<noteq> length [Num 1, Num 2, Num (3::real)] \<and>
   significance_test (constant_test (Num (- 3 / 5)) (Num (7 / 10)))
       [Num 1, Num (2::real)] [Num 1, Num 2, Num 3] =
     Inr \<lparr>statistic = Num (- 3 / 5), pvalue = Num (7 / 10), p_above_threshold = True\<rparr>"
  by (simp add: significance_test_def constant_test_def threshold_def)

end
